theory Spec2Isabelle
  imports Complex_Main "HOL-Library.Word"
begin

section \<open>Data model\<close>

text \<open>
  The two scripts \<^verbatim>\<open>analyze_ptx.py\<close> and \<^verbatim>\<open>ptx_structure_analyzer.py\<close> read a file
  into a \<^verbatim>\<open>bytes\<close> object and scan it. A byte is an 8-bit word, a \<^verbatim>\<open>bytes\<close> object a
  list of them. A Python \<^verbatim>\<open>str\<close> is a sequence of code points; it is modelled as a list of
  natural numbers (code points up to \<open>0x10FFFF\<close>), so that terms outside ASCII and lone
  surrogates, which \<^verbatim>\<open>str.encode\<close> rejects, are part of the model.
\<close>

type_synonym byte = "8 word"
type_synonym bytes = "byte list"
type_synonym pystr = "nat list"
type_synonym path = string

text \<open>The exceptions the two scripts can meet; all of them derive from \<^verbatim>\<open>Exception\<close>.\<close>

datatype exn = OSError path | UnicodeEncodeError | UnicodeDecodeError | StructError

text \<open>
  The file system is a parameter: \<^verbatim>\<open>open(p, 'rb')\<close> followed by \<^verbatim>\<open>f.read()\<close> either raises
  or yields the whole contents.
\<close>

type_synonym filesystem = "path \<Rightarrow> exn + bytes"

subsection \<open>Python primitives used by the scripts\<close>

text \<open>\<^verbatim>\<open>data[start:stop]\<close> for indices \<open>0 \<le> start\<close>, \<open>0 \<le> stop\<close>; slicing clamps to the buffer.\<close>

definition py_slice :: "'a list \<Rightarrow> nat \<Rightarrow> nat \<Rightarrow> 'a list" where
  "py_slice data start stop = take (stop - start) (drop start data)"

text \<open>
  \<^verbatim>\<open>data.find(sub, start)\<close> for \<open>start \<ge> 0\<close>: the lowest index \<open>i \<ge> start\<close> with
  \<^verbatim>\<open>data[i:i+len(sub)] == sub\<close> and \<open>i + len(sub) \<le> len(data)\<close>; \<open>None\<close> stands for the
  result \<open>-1\<close>. For the empty \<open>sub\<close> the result is \<open>start\<close> as long as
  \<open>start \<le> len(data)\<close>, and \<open>-1\<close> beyond.
\<close>

definition py_find :: "bytes \<Rightarrow> bytes \<Rightarrow> nat \<Rightarrow> nat option" where
  "py_find data sub start =
     List.find (\<lambda>i. take (length sub) (drop i data) = sub)
       [start ..< Suc (length data) - length sub]"

text \<open>
  \<^verbatim>\<open>str.encode('utf-8')\<close> and \<^verbatim>\<open>str.encode('utf-16le')\<close> in strict mode: a surrogate code
  point raises \<^verbatim>\<open>UnicodeEncodeError\<close>.
\<close>

definition utf8_encode_cp :: "nat \<Rightarrow> exn + bytes" where
  "utf8_encode_cp c =
     (if c < 0x80 then Inr [of_nat c]
      else if c < 0x800 then Inr [of_nat (0xC0 + c div 64), of_nat (0x80 + c mod 64)]
      else if 0xD800 \<le> c \<and> c \<le> 0xDFFF then Inl UnicodeEncodeError
      else if c < 0x10000 then
        Inr [of_nat (0xE0 + c div 4096), of_nat (0x80 + (c div 64) mod 64),
             of_nat (0x80 + c mod 64)]
      else if c < 0x110000 then
        Inr [of_nat (0xF0 + c div 262144), of_nat (0x80 + (c div 4096) mod 64),
             of_nat (0x80 + (c div 64) mod 64), of_nat (0x80 + c mod 64)]
      else Inl UnicodeEncodeError)"

definition utf16le_unit :: "nat \<Rightarrow> bytes" where
  "utf16le_unit u = [of_nat (u mod 256), of_nat (u div 256)]"

definition utf16le_encode_cp :: "nat \<Rightarrow> exn + bytes" where
  "utf16le_encode_cp c =
     (if 0xD800 \<le> c \<and> c \<le> 0xDFFF then Inl UnicodeEncodeError
      else if c < 0x10000 then Inr (utf16le_unit c)
      else if c < 0x110000 then
        Inr (utf16le_unit (0xD800 + (c - 0x10000) div 1024) @
             utf16le_unit (0xDC00 + (c - 0x10000) mod 1024))
      else Inl UnicodeEncodeError)"

fun encode_with :: "(nat \<Rightarrow> exn + bytes) \<Rightarrow> pystr \<Rightarrow> exn + bytes" where
  "encode_with f [] = Inr []"
| "encode_with f (c # cs) =
     (case f c of
        Inl e \<Rightarrow> Inl e
      | Inr bs \<Rightarrow> (case encode_with f cs of Inl e \<Rightarrow> Inl e | Inr rest \<Rightarrow> Inr (bs @ rest)))"

definition encode_utf8 :: "pystr \<Rightarrow> exn + bytes" where
  "encode_utf8 s = encode_with utf8_encode_cp s"

definition encode_utf16le :: "pystr \<Rightarrow> exn + bytes" where
  "encode_utf16le s = encode_with utf16le_encode_cp s"

section \<open>MarkerSearch: \<^verbatim>\<open>find_marker_strings\<close>\<close>

datatype encoding = UTF8 | UTF16LE

record occurrence =
  occ_term :: pystr
  occ_encoding :: encoding
  occ_position :: nat
  occ_context :: bytes

text \<open>
  The dictionary appended at a hit. \<^verbatim>\<open>max(0, pos - 50)\<close> is the truncated subtraction of
  \<open>nat\<close>.
\<close>

definition make_occurrence :: "bytes \<Rightarrow> pystr \<Rightarrow> encoding \<Rightarrow> bytes \<Rightarrow> nat \<Rightarrow> occurrence" where
  "make_occurrence data t enc pat pos =
     (let start = max 0 (pos - 50);
          stop = min (length data) (pos + length pat + 50)
      in \<lparr>occ_term = t, occ_encoding = enc, occ_position = pos,
          occ_context = py_slice data start stop\<rparr>)"

text \<open>
  One \<^verbatim>\<open>while True\<close> loop of the source (lines 19-34 and 37-51 differ in the pattern and
  the encoding tag only). The loop has no bound of its own, so it is a partial function:
  \<open>None\<close> is a loop that never leaves.
\<close>

partial_function (option) search_loop ::
  "bytes \<Rightarrow> pystr \<Rightarrow> encoding \<Rightarrow> bytes \<Rightarrow> nat \<Rightarrow> occurrence list \<Rightarrow> occurrence list option"
where
  "search_loop data t enc pat offset results =
     (case py_find data pat offset of
        None \<Rightarrow> Some results
      | Some pos \<Rightarrow>
          search_loop data t enc pat (pos + 1)
            (results @ [make_occurrence data t enc pat pos]))"

text \<open>
  The \<^verbatim>\<open>for term in search_terms\<close> loop on the loaded buffer. \<open>Some (Inl e)\<close> is an
  exception leaving the loop, \<open>Some (Inr results)\<close> the list after the last term.
\<close>

fun find_terms :: "bytes \<Rightarrow> pystr list \<Rightarrow> occurrence list \<Rightarrow> (exn + occurrence list) option" where
  "find_terms data [] results = Some (Inr results)"
| "find_terms data (t # ts) results =
     (case encode_utf8 t of
        Inl e \<Rightarrow> Some (Inl e)
      | Inr term_bytes \<Rightarrow>
          (case encode_utf16le t of
             Inl e \<Rightarrow> Some (Inl e)
           | Inr term_utf16 \<Rightarrow>
               (case search_loop data t UTF8 term_bytes 0 results of
                  None \<Rightarrow> None
                | Some results1 \<Rightarrow>
                    (case search_loop data t UTF16LE term_utf16 0 results1 of
                       None \<Rightarrow> None
                     | Some results2 \<Rightarrow> find_terms data ts results2))))"

text \<open>What the scripts print, line by line.\<close>

datatype out_line =
    Error_reading_file exn
  | Comparing path path
  | File_1_size nat
  | File_2_size nat
  | Size_difference int
  | First_difference_at_byte nat
  | File_1_context bytes
  | File_2_context bytes
  | Extra_data_in_file_2 nat
  | Extra_hex bytes
  | Extra_ascii bytes
  | Error_comparing_files exn

text \<open>
  \<^verbatim>\<open>try: ... except Exception as e: handler\<close> around a body: every exception of the body
  is caught and replaced by the handler's value. The result keeps the sum type, so that an
  exception passing the boundary would show as \<open>Inl\<close>.
\<close>

definition try_except :: "exn + 'a \<Rightarrow> (exn \<Rightarrow> 'a) \<Rightarrow> exn + 'a" where
  "try_except body handler =
     (case body of Inl e \<Rightarrow> Inr (handler e) | Inr v \<Rightarrow> Inr v)"

text \<open>
  \<^verbatim>\<open>find_marker_strings(file_path, search_terms)\<close>: the returned list and the lines
  printed. \<open>None\<close> is a call that never returns.
\<close>

definition find_marker_strings ::
  "filesystem \<Rightarrow> path \<Rightarrow> pystr list \<Rightarrow> (exn + occurrence list \<times> out_line list) option" where
  "find_marker_strings fs file_path search_terms =
     (case fs file_path of
        Inl e \<Rightarrow> Some (try_except (Inl e) (\<lambda>e. ([], [Error_reading_file e])))
      | Inr data \<Rightarrow>
          (case find_terms data search_terms [] of
             None \<Rightarrow> None
           | Some body \<Rightarrow>
               Some (try_except (map_sum id (\<lambda>results. (results, [])) body)
                      (\<lambda>e. ([], [Error_reading_file e])))))"

section \<open>StringTableScanner: the string loop of \<^verbatim>\<open>analyze_file_structure\<close>\<close>

text \<open>
  \<^verbatim>\<open>bytes.decode('utf-8')\<close> in strict mode: the well-formed byte sequences of UTF-8 (no
  overlong forms, no surrogates, nothing above \<open>0x10FFFF\<close>); anything else raises
  \<^verbatim>\<open>UnicodeDecodeError\<close>.
\<close>

definition is_cont :: "byte \<Rightarrow> bool" where
  "is_cont b = (0x80 \<le> b \<and> b \<le> 0xBF)"

definition cont_bits :: "byte \<Rightarrow> nat" where
  "cont_bits b = unat b - 0x80"

definition second_ok3 :: "byte \<Rightarrow> byte \<Rightarrow> bool" where
  "second_ok3 b c1 =
     (if b = 0xE0 then 0xA0 \<le> c1 \<and> c1 \<le> 0xBF
      else if b = 0xED then 0x80 \<le> c1 \<and> c1 \<le> 0x9F
      else is_cont c1)"

definition second_ok4 :: "byte \<Rightarrow> byte \<Rightarrow> bool" where
  "second_ok4 b c1 =
     (if b = 0xF0 then 0x90 \<le> c1 \<and> c1 \<le> 0xBF
      else if b = 0xF4 then 0x80 \<le> c1 \<and> c1 \<le> 0x8F
      else is_cont c1)"

text \<open>
  A lead byte \<open>b \<ge> 0x80\<close> and the bytes after it: the code point and the number of
  continuation bytes used.
\<close>

definition utf8_decode_seq :: "byte \<Rightarrow> bytes \<Rightarrow> (nat \<times> nat) option" where
  "utf8_decode_seq b bs =
     (if 0xC2 \<le> b \<and> b \<le> 0xDF then
        (case bs of
           c1 # _ \<Rightarrow>
             if is_cont c1 then Some ((unat b - 0xC0) * 64 + cont_bits c1, 1) else None
         | _ \<Rightarrow> None)
      else if 0xE0 \<le> b \<and> b \<le> 0xEF then
        (case bs of
           c1 # c2 # _ \<Rightarrow>
             if second_ok3 b c1 \<and> is_cont c2
             then Some (((unat b - 0xE0) * 64 + cont_bits c1) * 64 + cont_bits c2, 2)
             else None
         | _ \<Rightarrow> None)
      else if 0xF0 \<le> b \<and> b \<le> 0xF4 then
        (case bs of
           c1 # c2 # c3 # _ \<Rightarrow>
             if second_ok4 b c1 \<and> is_cont c2 \<and> is_cont c3
             then Some ((((unat b - 0xF0) * 64 + cont_bits c1) * 64 + cont_bits c2) * 64
                        + cont_bits c3, 3)
             else None
         | _ \<Rightarrow> None)
      else None)"

fun decode_utf8 :: "bytes \<Rightarrow> exn + pystr" where
  "decode_utf8 [] = Inr []"
| "decode_utf8 (b # bs) =
     (if b < 0x80 then
        (case decode_utf8 bs of Inl e \<Rightarrow> Inl e | Inr cs \<Rightarrow> Inr (unat b # cs))
      else
        (case utf8_decode_seq b bs of
           None \<Rightarrow> Inl UnicodeDecodeError
         | Some (cp, k) \<Rightarrow>
             (case decode_utf8 (drop k bs) of Inl e \<Rightarrow> Inl e | Inr cs \<Rightarrow> Inr (cp # cs))))"

text \<open>An entry of \<^verbatim>\<open>strings\<close>: the start offset and the decoded text.\<close>

type_synonym found_string = "int \<times> pystr"

text \<open>
  Lines 33-39 and, word for word, lines 44-50: what happens to the run when a byte ends
  it at index \<open>i\<close>. The bare \<^verbatim>\<open>except: pass\<close> drops a run that does not decode.
\<close>

definition flush_run :: "nat \<Rightarrow> bytes \<Rightarrow> found_string list \<Rightarrow> found_string list" where
  "flush_run i current_string strings =
     (if length current_string > 2 then
        (case decode_utf8 current_string of
           Inl e \<Rightarrow> strings
         | Inr decoded \<Rightarrow>
             if length decoded > 2 \<and> list_all (\<lambda>c. c < 128) decoded
             then strings @ [(int i - int (length current_string), decoded)]
             else strings)
      else strings)"

text \<open>
  The loop \<^verbatim>\<open>for i, byte in enumerate(data)\<close> from index \<open>i\<close> on, with the two variables
  it updates; the result is their value when the loop ends.
\<close>

fun scan_strings ::
  "nat \<Rightarrow> bytes \<Rightarrow> found_string list \<Rightarrow> bytes \<Rightarrow> found_string list \<times> bytes" where
  "scan_strings i [] strings current_string = (strings, current_string)"
| "scan_strings i (byte # rest) strings current_string =
     (if byte = 0 then
        scan_strings (Suc i) rest (flush_run i current_string strings) []
      else if 32 \<le> byte \<and> byte \<le> 126 then
        scan_strings (Suc i) rest strings (current_string @ [byte])
      else
        scan_strings (Suc i) rest (flush_run i current_string strings) [])"

text \<open>The list \<^verbatim>\<open>strings\<close> after the loop (line 53 on); \<^verbatim>\<open>current_string\<close> is not read again.\<close>

definition extract_strings :: "bytes \<Rightarrow> found_string list" where
  "extract_strings data = fst (scan_strings 0 data [] [])"

section \<open>FieldGuesser: the integer loop of \<^verbatim>\<open>analyze_file_structure\<close>\<close>

text \<open>\<^verbatim>\<open>range(0, stop, step)\<close> for a positive step; \<open>stop\<close> may be negative.\<close>

definition py_range0 :: "int \<Rightarrow> nat \<Rightarrow> nat list" where
  "py_range0 stop step =
     (if stop \<le> 0 then []
      else map (\<lambda>k. k * step) [0 ..< nat ((stop + int step - 1) div int step)])"

text \<open>
  \<^verbatim>\<open>struct.unpack('<I', bs)[0]\<close> and \<^verbatim>\<open>struct.unpack('>I', bs)[0]\<close>: an unsigned integer
  from exactly four bytes, \<^verbatim>\<open>struct.error\<close> for any other length.
\<close>

definition unpack_le :: "bytes \<Rightarrow> exn + int" where
  "unpack_le bs =
     (if length bs = 4
      then Inr (uint (bs ! 0) + 256 * uint (bs ! 1) + 65536 * uint (bs ! 2)
                + 16777216 * uint (bs ! 3))
      else Inl StructError)"

definition unpack_be :: "bytes \<Rightarrow> exn + int" where
  "unpack_be bs =
     (if length bs = 4
      then Inr (16777216 * uint (bs ! 0) + 65536 * uint (bs ! 1) + 256 * uint (bs ! 2)
                + uint (bs ! 3))
      else Inl StructError)"

text \<open>
  An entry of \<^verbatim>\<open>potential_markers\<close>: \<^verbatim>\<open>(i, value, seconds)\<close>. \<^verbatim>\<open>seconds = value / 44100\<close> is
  a float in the source; it is the exact quotient here. For an integer \<open>value\<close> below
  \<open>10000000\<close> the comparisons with \<open>10\<close> and \<open>300\<close> have the same outcome on the rounded
  quotient: the quotients nearest to \<open>10\<close> are \<open>10 \<plusminus> 1/44100\<close>, far more than one
  unit in the last place away.
\<close>

type_synonym candidate = "nat \<times> int \<times> rat"

text \<open>The body of \<^verbatim>\<open>for value in [value_le, value_be]\<close> (lines 76-79).\<close>

definition check_value :: "nat \<Rightarrow> candidate list \<Rightarrow> int \<Rightarrow> candidate list" where
  "check_value i potential_markers v =
     (if 0 < v \<and> v < 10000000 then
        (let seconds = of_int v / 44100 in
         if 10 < seconds \<and> seconds < 300
         then potential_markers @ [(i, v, seconds)]
         else potential_markers)
      else potential_markers)"

text \<open>The loop over the offsets; \<^verbatim>\<open>except: continue\<close> skips an offset whose unpack raises.\<close>

fun guess_loop :: "bytes \<Rightarrow> nat list \<Rightarrow> candidate list \<Rightarrow> candidate list" where
  "guess_loop data [] potential_markers = potential_markers"
| "guess_loop data (i # rest) potential_markers =
     (case unpack_le (py_slice data i (i + 4)) of
        Inl e \<Rightarrow> guess_loop data rest potential_markers
      | Inr value_le \<Rightarrow>
          (case unpack_be (py_slice data i (i + 4)) of
             Inl e \<Rightarrow> guess_loop data rest potential_markers
           | Inr value_be \<Rightarrow>
               guess_loop data rest
                 (foldl (check_value i) potential_markers [value_le, value_be])))"

text \<open>The offsets of line 68, \<^verbatim>\<open>range(0, len(data) - 4, 4)\<close>, and the list after the loop.\<close>

definition window_offsets :: "bytes \<Rightarrow> nat list" where
  "window_offsets data = py_range0 (int (length data) - 4) 4"

definition guess_fields :: "bytes \<Rightarrow> candidate list" where
  "guess_fields data = guess_loop data (window_offsets data) []"

section \<open>BinaryDiff: \<^verbatim>\<open>compare_files\<close>\<close>

text \<open>
  Lines 100-123 on the two loaded buffers: the three size lines, the search for the first
  difference (lines 105-113) and the extra data of file 2 (lines 116-123).
  \<^verbatim>\<open>bytes.hex()\<close> is one-to-one, so a printed hex
  string is kept as the bytes it shows; \<^verbatim>\<open>decode('ascii', errors='ignore')\<close> drops the
  bytes from \<open>0x80\<close> on.
\<close>

definition first_difference :: "bytes \<Rightarrow> bytes \<Rightarrow> out_line list" where
  "first_difference data1 data2 =
     (let min_len = min (length data1) (length data2) in
      case List.find (\<lambda>i. data1 ! i \<noteq> data2 ! i) [0 ..< min_len] of
        None \<Rightarrow> []
      | Some i \<Rightarrow>
          (let start = max 0 (i - 20);
               stop = min min_len (i + 20)
           in [First_difference_at_byte i,
               File_1_context (py_slice data1 start stop),
               File_2_context (py_slice data2 start stop)]))"

definition extra_data :: "bytes \<Rightarrow> bytes \<Rightarrow> out_line list" where
  "extra_data data1 data2 =
     (if length data2 > length data1 then
        (let extra_data = drop (length data1) data2
         in [Extra_data_in_file_2 (length extra_data),
             Extra_hex (take 50 extra_data),
             Extra_ascii (take 50 (filter (\<lambda>b. b < 0x80) extra_data))])
      else [])"

definition compare_report :: "bytes \<Rightarrow> bytes \<Rightarrow> out_line list" where
  "compare_report data1 data2 =
     [File_1_size (length data1), File_2_size (length data2),
      Size_difference (int (length data2) - int (length data1))]
     @ first_difference data1 data2
     @ extra_data data1 data2"

text \<open>
  \<^verbatim>\<open>compare_files(file1, file2)\<close>: the lines printed. The banner is printed before the
  \<^verbatim>\<open>try\<close>; \<^verbatim>\<open>file1\<close> is opened first.
\<close>

definition compare_files :: "filesystem \<Rightarrow> path \<Rightarrow> path \<Rightarrow> exn + out_line list" where
  "compare_files fs file1 file2 =
     map_sum id ((#) (Comparing file1 file2))
       (try_except
          (case fs file1 of
             Inl e \<Rightarrow> Inl e
           | Inr data1 \<Rightarrow>
               (case fs file2 of
                  Inl e \<Rightarrow> Inl e
                | Inr data2 \<Rightarrow> Inr (compare_report data1 data2)))
          (\<lambda>e. [Error_comparing_files e]))"

section \<open>Specification-side notions for MarkerSearch\<close>

text \<open>The pattern \<open>pat\<close> is present verbatim in \<open>data\<close> at byte offset \<open>k\<close>.\<close>

definition occurs_at :: "bytes \<Rightarrow> bytes \<Rightarrow> nat \<Rightarrow> bool" where
  "occurs_at data pat k = (k + length pat \<le> length data \<and> py_slice data k (k + length pat) = pat)"

text \<open>All offsets from \<open>off\<close> on at which \<open>pat\<close> is present, ascending.\<close>

definition hits :: "bytes \<Rightarrow> bytes \<Rightarrow> nat \<Rightarrow> nat list" where
  "hits data pat off = filter (occurs_at data pat) [off ..< Suc (length data)]"

section \<open>Specification-side notions for StringTableScanner\<close>

text \<open>The printable band of line 41.\<close>

definition printable :: "byte \<Rightarrow> bool" where
  "printable b = (32 \<le> b \<and> b \<le> 126)"

text \<open>
  The scanner without its decode guard: a run longer than 2 is emitted as it stands,
  one character per byte. It is compared with \<open>scan_strings\<close> below.
\<close>

definition flush_run_unguarded :: "nat \<Rightarrow> bytes \<Rightarrow> found_string list \<Rightarrow> found_string list" where
  "flush_run_unguarded i current_string strings =
     (if length current_string > 2
      then strings @ [(int i - int (length current_string), map unat current_string)]
      else strings)"

fun scan_strings_unguarded ::
  "nat \<Rightarrow> bytes \<Rightarrow> found_string list \<Rightarrow> bytes \<Rightarrow> found_string list \<times> bytes" where
  "scan_strings_unguarded i [] strings current_string = (strings, current_string)"
| "scan_strings_unguarded i (byte # rest) strings current_string =
     (if byte = 0 then
        scan_strings_unguarded (Suc i) rest (flush_run_unguarded i current_string strings) []
      else if 32 \<le> byte \<and> byte \<le> 126 then
        scan_strings_unguarded (Suc i) rest strings (current_string @ [byte])
      else
        scan_strings_unguarded (Suc i) rest (flush_run_unguarded i current_string strings) [])"

section \<open>Specification-side notions for FieldGuesser\<close>

text \<open>The plausibility filter in the words of the specification.\<close>

definition plausible :: "int \<Rightarrow> bool" where
  "plausible v = (0 < v \<and> v < 10000000 \<and> 10 < (of_int v :: rat) / 44100 \<and> (of_int v :: rat) / 44100 < 300)"

section \<open>Properties of the search primitive and the loop\<close>

lemma occurs_at_iff:
  "occurs_at data pat k \<longleftrightarrow>
     k < Suc (length data) - length pat \<and> take (length pat) (drop k data) = pat"
proof -
  have "take (length pat) (drop k data) = pat \<Longrightarrow> k + length pat \<le> length data \<or> pat = []"
  proof -
    assume h: "take (length pat) (drop k data) = pat"
    have "length (take (length pat) (drop k data)) = min (length pat) (length data - k)"
      by simp
    with h have "length pat \<le> length data - k" by (metis min.cobounded2)
    then show ?thesis by (cases pat) auto
  qed
  then show ?thesis
    by (auto simp: occurs_at_def py_slice_def)
qed

lemma find_upt_Some_iff:
  "List.find P [a ..< b] = Some p \<longleftrightarrow>
     a \<le> p \<and> p < b \<and> P p \<and> (\<forall>j. a \<le> j \<and> j < p \<longrightarrow> \<not> P j)"
proof (induction "b - a" arbitrary: a)
  case 0
  then show ?case by auto
next
  case (Suc n)
  then have ab: "a < b" and n: "n = b - Suc a" by auto
  have step: "List.find P [a ..< b] = (if P a then Some a else List.find P [Suc a ..< b])"
    using ab by (simp add: upt_rec [of a b])
  show ?case
  proof (cases "P a")
    case True
    then show ?thesis using ab step by (auto simp: not_less) 
  next
    case False
    have "(\<forall>j. a \<le> j \<and> j < p \<longrightarrow> \<not> P j) \<longleftrightarrow> (\<forall>j. Suc a \<le> j \<and> j < p \<longrightarrow> \<not> P j)"
      using False by (metis Suc_leI le_neq_implies_less Suc_leD)
    moreover have "a \<le> p \<and> P p \<longleftrightarrow> Suc a \<le> p \<and> P p"
      using False by (metis Suc_leI le_neq_implies_less Suc_leD)
    ultimately show ?thesis using False step Suc.hyps(1) [OF n] by auto
  qed
qed

lemma py_find_None_iff:
  "py_find data pat off = None \<longleftrightarrow> (\<forall>i\<ge>off. \<not> occurs_at data pat i)"
  by (auto simp: py_find_def find_None_iff occurs_at_iff)

lemma py_find_Some_iff:
  "py_find data pat off = Some pos \<longleftrightarrow>
     off \<le> pos \<and> occurs_at data pat pos \<and> (\<forall>j. off \<le> j \<and> j < pos \<longrightarrow> \<not> occurs_at data pat j)"
  unfolding py_find_def find_upt_Some_iff occurs_at_iff by auto

lemma occurs_at_le: "occurs_at data pat k \<Longrightarrow> k \<le> length data"
  by (simp add: occurs_at_def)

lemma hits_None: "py_find data pat off = None \<Longrightarrow> hits data pat off = []"
  by (auto simp: hits_def py_find_None_iff filter_empty_conv)

lemma hits_Some:
  assumes "py_find data pat off = Some pos"
  shows "hits data pat off = pos # hits data pat (pos + 1)"
proof -
  from assms have b: "off \<le> pos" "occurs_at data pat pos"
    and none: "\<forall>j. off \<le> j \<and> j < pos \<longrightarrow> \<not> occurs_at data pat j"
    by (auto simp: py_find_Some_iff)
  from b have le: "pos \<le> length data" by (simp add: occurs_at_le)
  have split: "[off ..< Suc (length data)] = [off ..< pos] @ pos # [Suc pos ..< Suc (length data)]"
  proof -
    have "[off ..< pos + (Suc (length data) - pos)] = [off ..< pos] @ [pos ..< pos + (Suc (length data) - pos)]"
      using b(1) by (rule upt_add_eq_append)
    moreover have "pos + (Suc (length data) - pos) = Suc (length data)" using le by simp
    moreover have "[pos ..< Suc (length data)] = pos # [Suc pos ..< Suc (length data)]"
      using le by (simp add: upt_conv_Cons)
    ultimately show ?thesis by simp
  qed
  have "filter (occurs_at data pat) [off ..< pos] = []"
    using none by (auto simp: filter_empty_conv)
  then show ?thesis
    unfolding hits_def split using b(2) by simp
qed

lemma search_loop_eq:
  "search_loop data t enc pat off results =
     Some (results @ map (make_occurrence data t enc pat) (hits data pat off))"
proof (induction "Suc (length data) - off" arbitrary: off results rule: less_induct)
  case less
  show ?case
  proof (cases "py_find data pat off")
    case None
    then show ?thesis
      by (subst search_loop.simps) (simp add: hits_None)
  next
    case (Some pos)
    then have b: "off \<le> pos" "pos \<le> length data"
      by (auto simp: py_find_Some_iff occurs_at_le)
    then have "Suc (length data) - (pos + 1) < Suc (length data) - off" by arith
    from less [OF this] Some show ?thesis
      by (subst search_loop.simps) (simp add: hits_Some [OF Some])
  qed
qed


lemma search_loop_returns: "\<exists>r. search_loop data t enc pat off results = Some r"
  by (simp add: search_loop_eq)

lemma encode_cp_agree:
  "(\<exists>bs. utf8_encode_cp c = Inr bs) \<longleftrightarrow> (\<exists>bs. utf16le_encode_cp c = Inr bs)"
  by (simp add: utf8_encode_cp_def utf16le_encode_cp_def)

lemma encode_with_agree:
  "(\<exists>bs. encode_with utf8_encode_cp s = Inr bs) \<longleftrightarrow> (\<exists>bs. encode_with utf16le_encode_cp s = Inr bs)"
proof (induction s)
  case Nil
  show ?case by simp
next
  case (Cons c cs)
  show ?case
  proof (cases "utf8_encode_cp c")
    case (Inl e)
    then have "\<not> (\<exists>bs. utf16le_encode_cp c = Inr bs)"
      using encode_cp_agree [of c] by auto
    then obtain e' where "utf16le_encode_cp c = Inl e'"
      by (cases "utf16le_encode_cp c") auto
    with Inl show ?thesis by simp
  next
    case (Inr bs)
    then obtain ws where "utf16le_encode_cp c = Inr ws"
      using encode_cp_agree [of c] by auto
    with Inr Cons.IH show ?thesis
      by (cases "encode_with utf8_encode_cp cs"; cases "encode_with utf16le_encode_cp cs") auto
  qed
qed

lemma encode_utf16le_defined:
  "encode_utf8 T = Inr nb \<Longrightarrow> \<exists>wb. encode_utf16le T = Inr wb"
  using encode_with_agree [of T] by (auto simp: encode_utf8_def encode_utf16le_def)

lemma find_terms_single:
  assumes "encode_utf8 T = Inr nb" "encode_utf16le T = Inr wb"
  shows "find_terms data [T] results =
           Some (Inr (results @ map (make_occurrence data T UTF8 nb) (hits data nb 0)
                      @ map (make_occurrence data T UTF16LE wb) (hits data wb 0)))"
  using assms by (simp add: search_loop_eq)

lemma find_terms_returns: "\<exists>r. find_terms data ts results = Some r"
proof (induction ts arbitrary: results)
  case Nil
  show ?case by simp
next
  case (Cons t ts)
  show ?case
    using Cons.IH by (simp add: search_loop_eq split: sum.split)
qed

lemma find_marker_strings_loaded:
  assumes "fs p = Inr data" "find_terms data ts [] = Some (Inr r)"
  shows "find_marker_strings fs p ts = Some (Inr (r, []))"
  using assms by (simp add: find_marker_strings_def try_except_def)

lemma occ_fields [simp]:
  "occ_position (make_occurrence data t enc pat k) = k"
  "occ_encoding (make_occurrence data t enc pat k) = enc"
  "occ_term (make_occurrence data t enc pat k) = t"
  by (simp_all add: make_occurrence_def Let_def)

lemma mem_hits: "k \<in> set (hits data pat 0) \<longleftrightarrow> occurs_at data pat k"
  by (auto simp: hits_def less_Suc_eq_le simp del: upt_Suc dest: occurs_at_le)

lemma encode_utf8_ascii:
  "list_all (\<lambda>c. c < 128) T \<Longrightarrow> encode_utf8 T = Inr (map of_nat T)"
  unfolding encode_utf8_def
  by (induction T) (simp_all add: utf8_encode_cp_def)

lemma encode_utf16le_ascii:
  "list_all (\<lambda>c. c < 128) T \<Longrightarrow>
     encode_utf16le T = Inr (concat (map (\<lambda>c. [of_nat c, 0]) T))"
  unfolding encode_utf16le_def
  by (induction T) (simp_all add: utf16le_encode_cp_def utf16le_unit_def)

text \<open>
  Claim C1 (MarkerSearch completeness). For every buffer \<open>B\<close>, term \<open>T\<close> and offsets
  \<open>k\<close>, \<open>j\<close>: when the term can be encoded, the call on \<open>[T]\<close> returns a list; if the
  byte-oriented encoding of \<open>T\<close> (UTF-8 in the source, which is one byte per character
  for an ASCII term) is present in \<open>B\<close> at offset \<open>k\<close>, the list holds an occurrence of
  \<open>T\<close> at position \<open>k\<close> tagged UTF-8; if the two-byte little-endian encoding (UTF-16LE,
  for an ASCII term each character followed by a zero byte) is present at offset \<open>j\<close>,
  it holds one at position \<open>j\<close> tagged UTF-16LE.
\<close>

theorem marker_search_complete:
  assumes "fs p = Inr B" and "encode_utf8 T = Inr nb"
  shows "\<exists>wb r. encode_utf16le T = Inr wb
           \<and> (list_all (\<lambda>c. c < 128) T \<longrightarrow>
                nb = map of_nat T \<and> wb = concat (map (\<lambda>c. [of_nat c, 0]) T))
           \<and> find_marker_strings fs p [T] = Some (Inr (r, []))
           \<and> (occurs_at B nb k \<longrightarrow>
                (\<exists>x \<in> set r. occ_position x = k \<and> occ_encoding x = UTF8 \<and> occ_term x = T))
           \<and> (occurs_at B wb j \<longrightarrow>
                (\<exists>x \<in> set r. occ_position x = j \<and> occ_encoding x = UTF16LE \<and> occ_term x = T))"
proof -
  from assms(2) obtain wb where wb: "encode_utf16le T = Inr wb"
    using encode_utf16le_defined by blast
  have ascii: "nb = map of_nat T \<and> wb = concat (map (\<lambda>c. [of_nat c, 0]) T)"
    if "list_all (\<lambda>c. c < 128) T"
    using encode_utf8_ascii [OF that] encode_utf16le_ascii [OF that] assms(2) wb by simp
  let ?r = "map (make_occurrence B T UTF8 nb) (hits B nb 0)
            @ map (make_occurrence B T UTF16LE wb) (hits B wb 0)"
  have run: "find_marker_strings fs p [T] = Some (Inr (?r, []))"
    using find_terms_single [OF assms(2) wb, of B "[]"] assms(1)
    by (simp add: find_marker_strings_loaded)
  have narrow: "\<exists>x \<in> set ?r. occ_position x = k \<and> occ_encoding x = UTF8 \<and> occ_term x = T"
    if "occurs_at B nb k"
  proof -
    from that have "make_occurrence B T UTF8 nb k \<in> set ?r" by (simp add: mem_hits)
    then show ?thesis by (rule rev_bexI) simp
  qed
  have wide: "\<exists>x \<in> set ?r. occ_position x = j \<and> occ_encoding x = UTF16LE \<and> occ_term x = T"
    if "occurs_at B wb j"
  proof -
    from that have "make_occurrence B T UTF16LE wb j \<in> set ?r" by (simp add: mem_hits)
    then show ?thesis by (rule rev_bexI) simp
  qed
  from wb ascii run narrow wide show ?thesis by blast
qed

theorem marker_search_complete_witness:
  "\<exists>r. find_marker_strings (\<lambda>p. Inr [97, 98, 97, 0, 98, 0]) ''x.ptx'' [[97, 98]] = Some (Inr (r, []))
       \<and> (\<exists>x \<in> set r. occ_position x = 0 \<and> occ_encoding x = UTF8 \<and> occ_term x = [97, 98])
       \<and> (\<exists>x \<in> set r. occ_position x = 2 \<and> occ_encoding x = UTF16LE \<and> occ_term x = [97, 98])"
proof -
  have e8: "encode_utf8 [97, 98] = Inr [97, 98]"
    by (simp add: encode_utf8_def utf8_encode_cp_def)
  have e16: "encode_utf16le [97, 98] = Inr [97, 0, 98, 0]"
    by (simp add: encode_utf16le_def utf16le_encode_cp_def utf16le_unit_def)
  have as: "list_all (\<lambda>c. c < 128) [97, 98 :: nat]" by simp
  have o8: "occurs_at [97, 98, 97, 0, 98, 0] [97, 98] 0"
    by (simp add: occurs_at_def py_slice_def)
  have o16: "occurs_at [97, 98, 97, 0, 98, 0] [97, 0, 98, 0] 2"
    by (simp add: occurs_at_def py_slice_def)
  show ?thesis
    using marker_search_complete [of "\<lambda>p. Inr [97, 98, 97, 0, 98, 0]" "''x.ptx''"
        "[97, 98, 97, 0, 98, 0]" "[97, 98]" "[97, 98]" 0 2] e8 e16 as o8 o16
    by auto
qed

lemma hits_empty_pat: "hits data [] 0 = [0 ..< Suc (length data)]"
proof -
  have "\<forall>k \<in> set [0 ..< Suc (length data)]. occurs_at data [] k"
    by (auto simp: occurs_at_def py_slice_def simp del: upt_Suc)
  then show ?thesis
    unfolding hits_def by (rule filter_True [OF ballI [OF bspec]])
qed

lemma find_aaa:
  "find_marker_strings (\<lambda>p. Inr [97, 97, 97]) q [[97, 97]]
     = Some (Inr ([\<lparr>occ_term = [97, 97], occ_encoding = UTF8, occ_position = 0,
                     occ_context = [97, 97, 97]\<rparr>,
                   \<lparr>occ_term = [97, 97], occ_encoding = UTF8, occ_position = 1,
                     occ_context = [97, 97, 97]\<rparr>], []))"
proof -
  have e8: "encode_utf8 [97, 97] = Inr [97, 97]"
    by (simp add: encode_utf8_def utf8_encode_cp_def)
  have e16: "encode_utf16le [97, 97] = Inr [97, 0, 97, 0]"
    by (simp add: encode_utf16le_def utf16le_encode_cp_def utf16le_unit_def)
  have h8: "hits [97, 97, 97] [97, 97] 0 = [0, 1]"
    by (simp add: hits_def occurs_at_def py_slice_def upt_rec)
  have h16: "hits [97, 97, 97] [97, 0, 97, 0] 0 = []"
    by (simp add: hits_def occurs_at_def py_slice_def upt_rec)
  have "find_terms [97, 97, 97] [[97, 97]] []
          = Some (Inr (map (make_occurrence [97, 97, 97] [97, 97] UTF8 [97, 97]) [0, 1]))"
    using find_terms_single [OF e8 e16, of "[97, 97, 97]" "[]"] h8 h16 by simp
  then have "find_marker_strings (\<lambda>p. Inr [97, 97, 97]) q [[97, 97]]
          = Some (Inr (map (make_occurrence [97, 97, 97] [97, 97] UTF8 [97, 97]) [0, 1], []))"
    by (simp add: find_marker_strings_loaded)
  then show ?thesis
    by (simp add: make_occurrence_def py_slice_def)
qed

text \<open>
  Claim C2 (MarkerSearch overlap). For a term that can be encoded, the positions reported
  under each encoding are exactly the offsets at which the encoded pattern is present, in
  ascending order and each once: a hit at \<open>pos\<close> moves the search to \<open>pos + 1\<close>, so
  overlapping matches are all found and none is dropped. On the buffer \<open>aaa\<close> and the
  term \<open>aa\<close> the call returns exactly two occurrences, both UTF-8, at positions 0 and 1.
\<close>

theorem marker_search_overlap:
  assumes "fs p = Inr B" and "encode_utf8 T = Inr nb" and "encode_utf16le T = Inr wb"
  shows "(\<exists>r. find_marker_strings fs p [T] = Some (Inr (r, []))
           \<and> map occ_position (filter (\<lambda>x. occ_encoding x = UTF8) r)
               = filter (occurs_at B nb) [0 ..< Suc (length B)]
           \<and> map occ_position (filter (\<lambda>x. occ_encoding x = UTF16LE) r)
               = filter (occurs_at B wb) [0 ..< Suc (length B)])
         \<and> find_marker_strings (\<lambda>p. Inr [97, 97, 97]) q [[97, 97]]
             = Some (Inr ([\<lparr>occ_term = [97, 97], occ_encoding = UTF8, occ_position = 0,
                             occ_context = [97, 97, 97]\<rparr>,
                           \<lparr>occ_term = [97, 97], occ_encoding = UTF8, occ_position = 1,
                             occ_context = [97, 97, 97]\<rparr>], []))"
proof -
  let ?r = "map (make_occurrence B T UTF8 nb) (hits B nb 0)
            @ map (make_occurrence B T UTF16LE wb) (hits B wb 0)"
  have "find_marker_strings fs p [T] = Some (Inr (?r, []))"
    using find_terms_single [OF assms(2,3), of B "[]"] assms(1)
    by (simp add: find_marker_strings_loaded)
  moreover have "map occ_position (filter (\<lambda>x. occ_encoding x = UTF8) ?r) = hits B nb 0"
    by (simp add: filter_map comp_def)
  moreover have "map occ_position (filter (\<lambda>x. occ_encoding x = UTF16LE) ?r) = hits B wb 0"
    by (simp add: filter_map comp_def)
  ultimately show ?thesis
    unfolding hits_def using find_aaa [of q] by blast
qed

theorem marker_search_overlap_witness:
  "\<exists>r. find_marker_strings (\<lambda>p. Inr [97, 97, 97]) ''aaa.bin'' [[97, 97]] = Some (Inr (r, []))
       \<and> map occ_position (filter (\<lambda>x. occ_encoding x = UTF8) r) = [0, 1]
       \<and> map occ_position (filter (\<lambda>x. occ_encoding x = UTF16LE) r) = []"
proof -
  have e8: "encode_utf8 [97, 97] = Inr [97, 97]"
    by (simp add: encode_utf8_def utf8_encode_cp_def)
  have e16: "encode_utf16le [97, 97] = Inr [97, 0, 97, 0]"
    by (simp add: encode_utf16le_def utf16le_encode_cp_def utf16le_unit_def)
  have h8: "filter (occurs_at [97, 97, 97] [97, 97]) [0 ..< Suc (length [97, 97, 97 :: byte])] = [0, 1]"
    by (simp add: occurs_at_def py_slice_def upt_rec)
  have h16: "filter (occurs_at [97, 97, 97] [97, 0, 97, 0]) [0 ..< Suc (length [97, 97, 97 :: byte])] = []"
    by (simp add: occurs_at_def py_slice_def upt_rec)
  show ?thesis
    using marker_search_overlap [of "\<lambda>p. Inr [97, 97, 97]" "''aaa.bin''" "[97, 97, 97]"
        "[97, 97]" "[97, 97]" "[97, 0, 97, 0]" "''aaa.bin''"] e8 e16 h8 h16
    by auto
qed

text \<open>
  Claim C8 (MarkerSearch termination). For every buffer, pattern, start offset and term
  list, each of the two search loops returns, and so do the loop over the terms and the
  whole call. The reason is the one the claim gives: a hit at \<open>pos\<close> found from \<open>offset\<close>
  has \<open>offset \<le> pos \<le> len(data)\<close>, so the next offset \<open>pos + 1\<close> is strictly larger, and
  the search finds nothing once no occurrence is left at or after the offset, in
  particular beyond the end of the buffer.
\<close>

theorem marker_search_terminates:
  "(\<exists>r. search_loop data t enc pat offset results = Some r)
   \<and> (\<exists>r. find_terms data terms results = Some r)
   \<and> (\<exists>r. find_marker_strings fs p terms = Some r)
   \<and> (\<forall>pos. py_find data pat offset = Some pos \<longrightarrow> offset < pos + 1 \<and> pos \<le> length data)
   \<and> ((\<forall>k \<ge> off'. \<not> occurs_at data pat k) \<longrightarrow> py_find data pat off' = None)
   \<and> (length data < off' \<longrightarrow> py_find data pat off' = None)"
proof -
  have "\<exists>r. find_marker_strings fs p terms = Some r"
  proof (cases "fs p")
    case (Inl e)
    then show ?thesis by (simp add: find_marker_strings_def)
  next
    case (Inr d)
    then show ?thesis
      using find_terms_returns [of d terms "[]"] by (auto simp: find_marker_strings_def)
  qed
  moreover have "length data < off' \<longrightarrow> py_find data pat off' = None"
    by (auto simp: py_find_None_iff dest: occurs_at_le)
  ultimately show ?thesis
    using search_loop_returns [of data t enc pat offset results]
      find_terms_returns [of data terms results]
    by (auto simp: py_find_Some_iff py_find_None_iff dest: occurs_at_le)
qed

theorem marker_search_terminates_witness:
  "(\<exists>r. search_loop [97, 97, 97] [97, 97] UTF8 [97, 97] 0 [] = Some r)
   \<and> py_find [97, 97, 97] [97, 97] 0 = Some 0
   \<and> (0::nat) < 0 + 1 \<and> (0::nat) \<le> length [97, 97, 97 :: byte]
   \<and> \<not> occurs_at [97, 97, 97] [97, 97] 2 \<and> \<not> occurs_at [97, 97, 97] [97, 97] 3
   \<and> py_find [97, 97, 97] [97, 97] 2 = None"
proof -
  have f: "py_find [97, 97, 97] [97, 97] 0 = Some 0"
    by (simp add: py_find_def upt_rec)
  have n: "\<forall>k \<ge> 2. \<not> occurs_at [97, 97, 97] [97, 97] k"
    by (simp add: occurs_at_def)
  show ?thesis
    using marker_search_terminates [of "[97, 97, 97]" "[97, 97]" UTF8 "[97, 97]" 0 "[]"
        "[]" "\<lambda>p. Inr []" "''f''" 2] f n
    by simp
qed

text \<open>
  Claim C10 (empty search term). Both encodings of the empty term are the empty byte
  sequence, and the call on the one empty term returns: its list holds an occurrence at
  every offset \<open>0, \<dots>, len(buffer)\<close> for UTF-8 followed by the same offsets for UTF-16LE,
  \<open>2 * (len(buffer) + 1)\<close> occurrences in all.
\<close>

theorem empty_term_occurrences:
  assumes "fs p = Inr B"
  shows "encode_utf8 [] = Inr [] \<and> encode_utf16le [] = Inr []
         \<and> (\<exists>r. find_marker_strings fs p [[]] = Some (Inr (r, []))
              \<and> map occ_position r = [0 ..< Suc (length B)] @ [0 ..< Suc (length B)]
              \<and> map occ_encoding r
                  = replicate (Suc (length B)) UTF8 @ replicate (Suc (length B)) UTF16LE
              \<and> length r = 2 * (length B + 1))"
proof -
  have e8: "encode_utf8 [] = Inr []" by (simp add: encode_utf8_def)
  have e16: "encode_utf16le [] = Inr []" by (simp add: encode_utf16le_def)
  let ?ks = "[0 ..< Suc (length B)]"
  let ?r = "map (make_occurrence B [] UTF8 []) ?ks @ map (make_occurrence B [] UTF16LE []) ?ks"
  have run: "find_marker_strings fs p [[]] = Some (Inr (?r, []))"
    using find_terms_single [OF e8 e16, of B "[]"] assms
    by (simp add: find_marker_strings_loaded hits_empty_pat del: upt_Suc)
  have pos: "map occ_position ?r = ?ks @ ?ks"
    by (simp add: comp_def del: upt_Suc)
  have enc: "map occ_encoding ?r
               = replicate (Suc (length B)) UTF8 @ replicate (Suc (length B)) UTF16LE"
    by (simp add: comp_def map_replicate_const del: upt_Suc)
  have len: "length ?r = 2 * (length B + 1)" by simp
  from e8 e16 run pos enc len show ?thesis by blast
qed

theorem empty_term_occurrences_witness:
  "\<exists>r. find_marker_strings (\<lambda>p. Inr [1, 2]) ''f'' [[]] = Some (Inr (r, []))
       \<and> map occ_position r = [0, 1, 2, 0, 1, 2] \<and> length r = 6"
  using empty_term_occurrences [of "\<lambda>p. Inr [1, 2]" "''f''" "[1, 2]"]
  by (auto simp: upt_rec)


lemma find_marker_strings_contained: "\<exists>r. find_marker_strings fs p terms = Some (Inr r)"
proof (cases "fs p")
  case (Inl e)
  then show ?thesis by (simp add: find_marker_strings_def try_except_def)
next
  case (Inr d)
  obtain b where "find_terms d terms [] = Some b"
    using find_terms_returns [of d terms "[]"] by blast
  with Inr show ?thesis
    by (cases b) (simp_all add: find_marker_strings_def try_except_def)
qed

lemma compare_files_contained: "\<exists>out. compare_files fs file1 file2 = Inr out"
  by (simp add: compare_files_def try_except_def split: sum.split)

text \<open>
  Claim C7 (error containment). When loading the file raises, \<^verbatim>\<open>find_marker_strings\<close>
  returns the empty list and prints the diagnostic; whatever the file system and the
  terms, the call returns normally (it neither loops nor lets an exception out). In the
  same way \<^verbatim>\<open>compare_files\<close> prints its diagnostic when either file fails to load, and
  never raises.
\<close>

theorem io_errors_contained:
  "(fs p = Inl e \<longrightarrow>
      find_marker_strings fs p terms = Some (Inr ([], [Error_reading_file e])))
   \<and> (\<exists>r. find_marker_strings fs p terms = Some (Inr r))
   \<and> (fs file1 = Inl e1 \<longrightarrow>
        compare_files fs file1 file2 = Inr [Comparing file1 file2, Error_comparing_files e1])
   \<and> (fs file1 = Inr d1 \<and> fs file2 = Inl e2 \<longrightarrow>
        compare_files fs file1 file2 = Inr [Comparing file1 file2, Error_comparing_files e2])
   \<and> (\<exists>out. compare_files fs file1 file2 = Inr out)"
  using find_marker_strings_contained [of fs p terms] compare_files_contained [of fs file1 file2]
  by (simp add: find_marker_strings_def compare_files_def try_except_def)

theorem io_errors_contained_witness:
  "find_marker_strings (\<lambda>p. if p = ''a'' then Inr [1] else Inl (OSError p)) ''b'' [[73]]
     = Some (Inr ([], [Error_reading_file (OSError ''b'')]))
   \<and> compare_files (\<lambda>p. if p = ''a'' then Inr [1] else Inl (OSError p)) ''b'' ''a''
       = Inr [Comparing ''b'' ''a'', Error_comparing_files (OSError ''b'')]
   \<and> compare_files (\<lambda>p. if p = ''a'' then Inr [1] else Inl (OSError p)) ''a'' ''c''
       = Inr [Comparing ''a'' ''c'', Error_comparing_files (OSError ''c'')]"
proof -
  let ?fs = "\<lambda>p. if p = ''a'' then Inr [1] else Inl (OSError p) :: exn + bytes"
  have "?fs ''b'' = Inl (OSError ''b'')" by simp
  moreover have "?fs ''a'' = Inr [1] \<and> ?fs ''c'' = Inl (OSError ''c'')" by simp
  ultimately show ?thesis
    using io_errors_contained [of ?fs "''b''" "OSError ''b''" "[[73]]" "''b''" "OSError ''b''" "''a''" "[1]" "OSError ''c''"]
      io_errors_contained [of ?fs "''b''" "OSError ''b''" "[[73]]" "''a''" "OSError ''b''" "''c''" "[1]" "OSError ''c''"]
    by simp
qed


section \<open>Properties of the string scanner\<close>

lemma scan_strings_append:
  "scan_strings i (xs @ ys) strings cur =
     (case scan_strings i xs strings cur of
        (strings', cur') \<Rightarrow> scan_strings (i + length xs) ys strings' cur')"
  by (induction xs arbitrary: i strings cur) auto

lemma scan_strings_printable:
  "list_all printable run \<Longrightarrow>
     scan_strings i run strings cur = (strings, cur @ run)"
proof (induction run arbitrary: i cur)
  case Nil
  show ?case by simp
next
  case (Cons b run)
  from Cons.prems have pb: "printable b" and rest: "list_all printable run"
    by simp_all
  from pb have b: "32 \<le> b" "b \<le> 126" by (simp_all add: printable_def)
  from b have "b \<noteq> 0" by auto
  with b Cons.IH [OF rest] show ?case by simp
qed

lemma scan_strings_fst_run:
  assumes "list_all printable run"
  shows "fst (scan_strings i (xs @ run) strings cur) = fst (scan_strings i xs strings cur)"
  using assms
  by (simp add: scan_strings_append scan_strings_printable split: prod.split)

lemma scan_strings_terminated:
  assumes "list_all printable run" and "\<not> printable t"
  shows "scan_strings i (xs @ run @ [t]) strings cur =
           (flush_run (i + length xs + length run)
              (snd (scan_strings i xs strings cur) @ run)
              (fst (scan_strings i xs strings cur)), [])"
proof -
  obtain s c where sc: "scan_strings i xs strings cur = (s, c)"
    by (cases "scan_strings i xs strings cur")
  have "scan_strings (i + length xs + length run) [t] s (c @ run)
          = (flush_run (i + length xs + length run) (c @ run) s, [])"
    using assms(2) by (auto simp: printable_def)
  then show ?thesis
    using assms(1) sc
    by (simp add: scan_strings_append scan_strings_printable)
qed

text \<open>
  Claim C3 (flush-on-end), amended. The loop has no step after the last byte: a printable
  run still in progress when the buffer ends is discarded, whatever its length, so
  appending printable bytes to a buffer never changes the result. The run is evaluated
  (by the rule of \<open>flush_run\<close>, at the index of the terminator) only once a byte outside
  the printable band follows it.
\<close>

theorem trailing_run_dropped:
  assumes "list_all printable run" and "\<not> printable t"
  shows "extract_strings (data @ run) = extract_strings data
         \<and> extract_strings (data @ run @ [t])
             = flush_run (length data + length run)
                 (snd (scan_strings 0 data [] []) @ run) (extract_strings data)"
  using scan_strings_fst_run [OF assms(1), of 0 data "[]" "[]"]
    scan_strings_terminated [OF assms, of 0 data "[]" "[]"]
  by (simp add: extract_strings_def)

text \<open>
  Claim C3 as stated fails: the three printable bytes \<open>ABC\<close> alone form a run of length 3
  that decodes as ASCII and is still in progress when the buffer ends, and the scanner
  reports nothing; the same run followed by a null byte is reported.
\<close>

theorem trailing_run_counterexample:
  "list_all printable [65, 66, 67] \<and> length [65, 66, 67 :: byte] > 2
   \<and> decode_utf8 [65, 66, 67] = Inr [65, 66, 67]
   \<and> (0, [65, 66, 67]) \<notin> set (extract_strings [65, 66, 67])
   \<and> extract_strings [65, 66, 67, 0] = [(0, [65, 66, 67])]"
  by (simp add: printable_def extract_strings_def flush_run_def)

theorem trailing_run_dropped_witness:
  "extract_strings ([65, 66, 67, 0] @ [68, 69, 70]) = [(0, [65, 66, 67])]
   \<and> extract_strings ([65, 66, 67, 0] @ [68, 69, 70] @ [0])
        = [(0, [65, 66, 67]), (4, [68, 69, 70])]"
proof -
  have p: "list_all printable [68, 69, 70]" by (simp add: printable_def)
  have t: "\<not> printable 0" by (simp add: printable_def)
  have e: "extract_strings [65, 66, 67, 0] = [(0, [65, 66, 67])]"
    by (simp add: extract_strings_def flush_run_def)
  have s: "snd (scan_strings 0 [65, 66, 67, 0] [] []) = []"
    by simp
  show ?thesis
    using trailing_run_dropped [OF p t, of "[65, 66, 67, 0]"] e s
    by (simp add: flush_run_def)
qed

lemma decode_utf8_printable:
  "list_all printable run \<Longrightarrow> decode_utf8 run = Inr (map unat run)"
proof (induction run)
  case Nil
  show ?case by simp
next
  case (Cons b run)
  then have "printable b" and rest: "list_all printable run" by simp_all
  then have "b \<le> 126" by (simp add: printable_def)
  then have "b < 0x80" by (simp add: word_le_nat_alt word_less_nat_alt)
  with Cons.IH [OF rest] show ?case by simp
qed

lemma printable_codes: "list_all printable run \<Longrightarrow> list_all (\<lambda>c. c < 128) (map unat run)"
proof (induction run)
  case Nil
  show ?case by simp
next
  case (Cons b run)
  then have "printable b" and rest: "list_all printable run" by simp_all
  then have "b \<le> 126" by (simp add: printable_def)
  then have "unat b \<le> 126" by (simp add: word_le_nat_alt)
  with Cons.IH [OF rest] show ?case by simp
qed

lemma flush_run_printable:
  "list_all printable cur \<Longrightarrow> flush_run i cur strings = flush_run_unguarded i cur strings"
  by (simp add: flush_run_def flush_run_unguarded_def decode_utf8_printable printable_codes)

lemma scan_strings_invariant:
  "list_all printable cur \<Longrightarrow> list_all printable (snd (scan_strings i data strings cur))"
proof (induction data arbitrary: i strings cur)
  case Nil
  then show ?case by simp
next
  case (Cons b data)
  have nil: "list_all printable []" by simp
  show ?case
  proof (cases "b \<noteq> 0 \<and> 32 \<le> b \<and> b \<le> 126")
    case True
    then have "printable b" by (simp add: printable_def)
    with Cons.prems have "list_all printable (cur @ [b])" by simp
    from Cons.IH [OF this] True show ?thesis by simp
  next
    case False
    then show ?thesis
      using Cons.IH [OF nil] by auto
  qed
qed

lemma scan_strings_guard_free:
  "list_all printable cur \<Longrightarrow>
     scan_strings i data strings cur = scan_strings_unguarded i data strings cur"
proof (induction data arbitrary: i strings cur)
  case Nil
  show ?case by simp
next
  case (Cons b data)
  have nil: "list_all printable []" by simp
  show ?case
  proof (cases "b \<noteq> 0 \<and> 32 \<le> b \<and> b \<le> 126")
    case True
    then have "printable b" by (simp add: printable_def)
    with Cons.prems have "list_all printable (cur @ [b])" by simp
    from Cons.IH [OF this] True show ?thesis by simp
  next
    case False
    then show ?thesis
      using Cons.IH [OF nil] flush_run_printable [OF Cons.prems]
      by auto
  qed
qed

text \<open>
  Claim C9 (decode guard unreachable). For every buffer the run accumulated by the
  scanner holds only bytes in \<open>32..126\<close>; such a run decodes as UTF-8 without error, to
  one character per byte, each below 128, so evaluating it emits it exactly when it is
  longer than 2; and the scanner computes the same as the scanner without the guard.
\<close>

theorem decode_guard_unreachable:
  "list_all printable (snd (scan_strings 0 data [] []))
   \<and> (list_all printable run \<longrightarrow>
        decode_utf8 run = Inr (map unat run) \<and> list_all (\<lambda>c. c < 128) (map unat run)
        \<and> flush_run i run strings
            = (if length run > 2
               then strings @ [(int i - int (length run), map unat run)] else strings))
   \<and> scan_strings 0 data [] [] = scan_strings_unguarded 0 data [] []"
  using scan_strings_invariant [of "[]" 0 data "[]"] scan_strings_guard_free [of "[]" 0 data "[]"]
    decode_utf8_printable [of run] printable_codes [of run] flush_run_printable [of run i strings]
  by (simp add: flush_run_unguarded_def)

theorem decode_guard_unreachable_witness:
  "list_all printable [72, 105, 33]
   \<and> decode_utf8 [72, 105, 33] = Inr [72, 105, 33]
   \<and> flush_run 7 [72, 105, 33] [] = [(4, [72, 105, 33])]"
proof -
  have p: "list_all printable [72, 105, 33]" by (simp add: printable_def)
  show ?thesis
    using decode_guard_unreachable [of "[]" "[72, 105, 33]" 7 "[]"] p
    by simp
qed


section \<open>Properties of the field scan\<close>

lemma plausible_iff: "plausible v \<longleftrightarrow> 441000 < v \<and> v < 10000000"
proof -
  have a: "10 < (of_int v :: rat) / 44100 \<longleftrightarrow> 441000 < v"
    by (simp add: less_divide_eq)
  have b: "(of_int v :: rat) / 44100 < 300 \<longleftrightarrow> v < 13230000"
    by (simp add: divide_less_eq)
  show ?thesis unfolding plausible_def a b by auto
qed

lemma check_value_eq:
  "check_value i pm v = (if plausible v then pm @ [(i, v, of_int v / 44100)] else pm)"
  by (simp add: check_value_def plausible_def Let_def)

lemma slice_len4:
  "length (py_slice data i (i + 4)) = 4 \<longleftrightarrow> i + 4 \<le> length data"
  by (auto simp: py_slice_def)

lemma guess_loop_step_ok:
  assumes "unpack_le (py_slice data i (i + 4)) = Inr a" "unpack_be (py_slice data i (i + 4)) = Inr b"
  shows "guess_loop data (i # offs) pm = guess_loop data offs (check_value i (check_value i pm a) b)"
  using assms by simp

lemma guess_loop_step_fail:
  assumes "length (py_slice data i (i + 4)) \<noteq> 4"
  shows "guess_loop data (i # offs) pm = guess_loop data offs pm"
  using assms by (simp add: unpack_le_def)

lemma set_guess_loop:
  "set (guess_loop data offs pm) =
     set pm \<union> {(i, v, s). i \<in> set offs
                  \<and> (unpack_le (py_slice data i (i + 4)) = Inr v
                      \<or> unpack_be (py_slice data i (i + 4)) = Inr v)
                  \<and> plausible v \<and> s = (of_int v :: rat) / 44100}"
proof (induction offs arbitrary: pm)
  case Nil
  show ?case by simp
next
  case (Cons i offs)
  let ?sl = "py_slice data i (i + 4)"
  let ?S = "\<lambda>offs. {(i, v, s). i \<in> set offs
                  \<and> (unpack_le (py_slice data i (i + 4)) = Inr v
                      \<or> unpack_be (py_slice data i (i + 4)) = Inr v)
                  \<and> plausible v \<and> s = (of_int v :: rat) / 44100}"
  show ?case
  proof (cases "length ?sl = 4")
    case True
    then obtain a b where a: "unpack_le ?sl = Inr a" and b: "unpack_be ?sl = Inr b"
      by (simp add: unpack_le_def unpack_be_def)
    have here: "set (check_value i (check_value i pm a) b)
                  = set pm \<union> {(j, v, s). j = i \<and> (v = a \<or> v = b) \<and> plausible v \<and> s = (of_int v :: rat) / 44100}"
      by (auto simp: check_value_eq)
    have split: "?S (i # offs) = {(j, v, s). j = i \<and> (v = a \<or> v = b) \<and> plausible v \<and> s = (of_int v :: rat) / 44100} \<union> ?S offs"
      using a b by auto
    show ?thesis
      unfolding guess_loop_step_ok [OF a b] Cons.IH here split by blast
  next
    case False
    then have none: "\<And>v. unpack_le ?sl \<noteq> Inr v" "\<And>v. unpack_be ?sl \<noteq> Inr v"
      by (simp_all add: unpack_le_def unpack_be_def)
    have split: "?S (i # offs) = ?S offs"
      using none by auto
    show ?thesis
      unfolding guess_loop_step_fail [OF False] Cons.IH split by simp
  qed
qed

lemma range_count: "nat ((int n + int 4 - 1) div int 4) = (n + 3) div 4"
proof -
  have "int n + int 4 - 1 = int (n + 3)" by simp
  then have "(int n + int 4 - 1) div int 4 = int ((n + 3) div 4)"
    by (simp only: zdiv_int)
  then show ?thesis by simp
qed

lemma py_range0_pos:
  assumes "0 < n"
  shows "py_range0 (int n) 4 = map (\<lambda>k. k * 4) [0 ..< (n + 3) div 4]"
proof -
  have "\<not> int n \<le> 0" using assms by simp
  then show ?thesis
    unfolding py_range0_def range_count by (simp only: if_False)
qed

lemma stride_image: "(\<lambda>k. k * 4) ` {0 ..< (n + 3) div 4} = {i :: nat. i mod 4 = 0 \<and> i < n}"
proof (intro set_eqI iffI)
  fix i :: nat assume "i \<in> (\<lambda>k. k * 4) ` {0 ..< (n + 3) div 4}"
  then obtain k where k: "i = k * 4" "k < (n + 3) div 4" by auto
  then have "k * 4 < n" by arith
  with k show "i \<in> {i. i mod 4 = 0 \<and> i < n}" by simp
next
  fix i :: nat assume "i \<in> {i. i mod 4 = 0 \<and> i < n}"
  then have m: "i mod 4 = 0" and l: "i < n" by auto
  from m have e: "i = (i div 4) * 4" by arith
  from l have "i div 4 < (n + 3) div 4" using m by arith
  then have "i div 4 \<in> {0 ..< (n + 3) div 4}" by simp
  then have "(i div 4) * 4 \<in> (\<lambda>k. k * 4) ` {0 ..< (n + 3) div 4}" by (rule imageI)
  with e show "i \<in> (\<lambda>k. k * 4) ` {0 ..< (n + 3) div 4}" by simp
qed

lemma set_window_offsets:
  "set (window_offsets data) = {i. i mod 4 = 0 \<and> i + 4 < length data}"
proof (cases "length data \<le> 4")
  case True
  then have "window_offsets data = []" by (simp add: window_offsets_def py_range0_def)
  with True show ?thesis by auto
next
  case False
  then have pos: "0 < length data - 4" by simp
  have "int (length data) - 4 = int (length data - 4)" using False by simp
  then have "window_offsets data = py_range0 (int (length data - 4)) 4"
    by (simp only: window_offsets_def)
  then have "set (window_offsets data) = {i. i mod 4 = 0 \<and> i < length data - 4}"
    by (simp only: py_range0_pos [OF pos] set_map set_upt stride_image)
  also have "\<dots> = {i. i mod 4 = 0 \<and> i + 4 < length data}" by auto
  finally show ?thesis .
qed

lemma guess_fields_mem:
  "(i, v, s) \<in> set (guess_fields data) \<longleftrightarrow>
      i \<in> set (window_offsets data)
      \<and> (unpack_le (py_slice data i (i + 4)) = Inr v
          \<or> unpack_be (py_slice data i (i + 4)) = Inr v)
      \<and> plausible v \<and> s = of_int v / 44100"
  unfolding guess_fields_def set_guess_loop by simp

lemma check_value_boundary:
  "check_value i pm 441000 = pm"
  "check_value i pm 441001 = pm @ [(i, 441001, 441001 / 44100)]"
  "check_value i pm 13230000 = pm"
  by (simp_all add: check_value_def)

lemma offsets8: "window_offsets [a, b, c, d, e, f, g, h] = [0]"
  by (simp add: window_offsets_def py_range0_def)

lemma offsets4: "window_offsets [a, b, c, d] = []"
  by (simp add: window_offsets_def py_range0_def)

lemma guess_fields8:
  "guess_fields [a, b, c, d, e, f, g, h] =
     check_value 0 (check_value 0 [] (uint a + 256 * uint b + 65536 * uint c + 16777216 * uint d))
       (16777216 * uint a + 65536 * uint b + 256 * uint c + uint d)"
  by (simp add: guess_fields_def offsets8 unpack_le_def unpack_be_def py_slice_def)

lemma boundary_buffers:
  "guess_fields [0xA8, 0xBA, 0x06, 0, 0, 0, 0, 0] = []"
  "guess_fields [0xA9, 0xBA, 0x06, 0, 0, 0, 0, 0] = [(0, 441001, 441001 / 44100)]"
  "guess_fields [0xB0, 0xDF, 0xC9, 0, 0, 0, 0, 0] = []"
  by (simp_all add: guess_fields8 check_value_def)

text \<open>
  Claim C5 (FieldGuesser plausibility filter). A triple \<open>(i, v, s)\<close> is in the result
  exactly when \<open>i\<close> is one of the offsets the loop visits, \<open>v\<close> is the little-endian or
  the big-endian reading of the four bytes at \<open>i\<close>, \<open>0 < v < 10000000\<close> and
  \<open>10 < v / 44100 < 300\<close>, and \<open>s = v / 44100\<close>. The two bounds that bite are strict:
  the filter accepts exactly \<open>441000 < v < 10000000\<close>, so 441000 is excluded, 441001 is
  included and 13230000 is excluded, for the filter on its own and for buffers that carry
  these values in little-endian order in a visited window.
\<close>

theorem field_filter:
  "((i, v, s) \<in> set (guess_fields data) \<longleftrightarrow>
      i \<in> set (window_offsets data)
      \<and> (unpack_le (py_slice data i (i + 4)) = Inr v
          \<or> unpack_be (py_slice data i (i + 4)) = Inr v)
      \<and> 0 < v \<and> v < 10000000
      \<and> 10 < (of_int v :: rat) / 44100 \<and> (of_int v :: rat) / 44100 < 300
      \<and> s = of_int v / 44100)
   \<and> (plausible v \<longleftrightarrow> 441000 < v \<and> v < 10000000)
   \<and> check_value i pm v = (if plausible v then pm @ [(i, v, of_int v / 44100)] else pm)
   \<and> check_value i pm 441000 = pm
   \<and> check_value i pm 441001 = pm @ [(i, 441001, 441001 / 44100)]
   \<and> check_value i pm 13230000 = pm
   \<and> guess_fields [0xA8, 0xBA, 0x06, 0, 0, 0, 0, 0] = []
   \<and> guess_fields [0xA9, 0xBA, 0x06, 0, 0, 0, 0, 0] = [(0, 441001, 441001 / 44100)]
   \<and> guess_fields [0xB0, 0xDF, 0xC9, 0, 0, 0, 0, 0] = []"
proof -
  have "(i, v, s) \<in> set (guess_fields data) \<longleftrightarrow>
      i \<in> set (window_offsets data)
      \<and> (unpack_le (py_slice data i (i + 4)) = Inr v
          \<or> unpack_be (py_slice data i (i + 4)) = Inr v)
      \<and> 0 < v \<and> v < 10000000
      \<and> 10 < (of_int v :: rat) / 44100 \<and> (of_int v :: rat) / 44100 < 300
      \<and> s = of_int v / 44100"
    unfolding guess_fields_mem plausible_def by blast
  then show ?thesis
    using plausible_iff [of v] check_value_eq [of i pm v] check_value_boundary [of i pm]
      boundary_buffers
    by blast
qed

text \<open>
  Claim C4 (FieldGuesser window coverage) against the code: \<^verbatim>\<open>range(0, len(data) - 4, 4)\<close>
  visits the multiples of 4 strictly below \<open>len(data) - 4\<close>, so the window at offset
  \<open>len(data) - 4\<close> is never read. In the 8-byte buffer below the last window holds 441001
  in little-endian order, which the filter accepts, and the result is empty; a 4-byte
  buffer has no window at all.
\<close>

theorem last_window_skipped:
  "(i \<in> set (window_offsets data) \<longleftrightarrow> i mod 4 = 0 \<and> i + 4 < length data)
   \<and> length [0, 0, 0, 0, 0xA9, 0xBA, 0x06, 0 :: byte] = 8
   \<and> window_offsets [0, 0, 0, 0, 0xA9, 0xBA, 0x06, 0] = [0]
   \<and> unpack_le (py_slice [0, 0, 0, 0, 0xA9, 0xBA, 0x06, 0] 4 8) = Inr 441001
   \<and> check_value 4 [] 441001 = [(4, 441001, 441001 / 44100)]
   \<and> guess_fields [0, 0, 0, 0, 0xA9, 0xBA, 0x06, 0] = []
   \<and> window_offsets [0xA9, 0xBA, 0x06, 0] = []
   \<and> guess_fields [0xA9, 0xBA, 0x06, 0] = []"
proof -
  have "i \<in> set (window_offsets data) \<longleftrightarrow> i mod 4 = 0 \<and> i + 4 < length data"
    by (simp add: set_window_offsets)
  moreover have "unpack_le (py_slice [0, 0, 0, 0, 0xA9, 0xBA, 0x06, 0] 4 8) = Inr 441001"
    by (simp add: unpack_le_def py_slice_def)
  moreover have "guess_fields [0, 0, 0, 0, 0xA9, 0xBA, 0x06, 0] = []"
    by (simp add: guess_fields8 check_value_def)
  moreover have "guess_fields [0xA9, 0xBA, 0x06, 0] = []"
    by (simp add: guess_fields_def offsets4)
  moreover have "length [0, 0, 0, 0, 0xA9, 0xBA, 0x06, 0 :: byte] = 8" by simp
  ultimately show ?thesis
    using offsets8 [of 0 0 0 0 "0xA9" "0xBA" "0x06" 0] offsets4 [of "0xA9" "0xBA" "0x06" 0]
      check_value_boundary(2) [of 4 "[]"]
    by simp
qed

section \<open>Properties of the comparison\<close>

lemma first_difference_no_extra:
  "Extra_data_in_file_2 n \<notin> set (first_difference data1 data2)"
  "Extra_hex bs \<notin> set (first_difference data1 data2)"
  by (simp_all add: first_difference_def Let_def split: option.split)

text \<open>
  Claim C6 (BinaryDiff trailing bytes), amended. The trailing bytes are reported in one
  direction only: when file 2 is longer than file 1 the report holds the length of the
  part of file 2 beyond the length of file 1 and the first 50 bytes of that part; when
  file 2 is not longer, the report holds no such line, whatever the sizes.
\<close>

theorem trailing_bytes_only_file2:
  "(length data2 > length data1 \<longrightarrow>
      Extra_data_in_file_2 (length data2 - length data1) \<in> set (compare_report data1 data2)
      \<and> Extra_hex (take 50 (drop (length data1) data2)) \<in> set (compare_report data1 data2))
   \<and> (length data2 \<le> length data1 \<longrightarrow>
        Extra_data_in_file_2 n \<notin> set (compare_report data1 data2)
        \<and> Extra_hex bs \<notin> set (compare_report data1 data2))"
proof (cases "length data1 < length data2")
  case True
  then show ?thesis by (simp add: compare_report_def extra_data_def Let_def)
next
  case False
  then have le: "length data2 \<le> length data1" by simp
  show ?thesis
    using le first_difference_no_extra(1) [of n data1 data2]
      first_difference_no_extra(2) [of bs data1 data2]
    by (simp add: compare_report_def extra_data_def)
qed

text \<open>
  Claim C6 as stated fails when file 1 is the longer one: the sizes differ and the report
  ends after the size lines, without the byte that only file 1 has.
\<close>

theorem trailing_bytes_counterexample:
  "length [1, 2 :: byte] \<noteq> length [1 :: byte]
   \<and> compare_report [1, 2] [1] = [File_1_size 2, File_2_size 1, Size_difference (- 1)]
   \<and> Extra_hex [2] \<notin> set (compare_report [1, 2] [1])
   \<and> compare_files (\<lambda>p. if p = ''a'' then Inr [1, 2] else Inr [1]) ''a'' ''b''
       = Inr [Comparing ''a'' ''b'', File_1_size 2, File_2_size 1, Size_difference (- 1)]"
  by (simp add: compare_files_def try_except_def compare_report_def first_difference_def
      extra_data_def)

theorem trailing_bytes_only_file2_witness:
  "Extra_data_in_file_2 (length [1, 2, 9, 4, 5, 6, 7 :: byte] - length [1, 2, 3, 4, 5 :: byte])
      \<in> set (compare_report [1, 2, 3, 4, 5] [1, 2, 9, 4, 5, 6, 7])
   \<and> Extra_hex [6, 7] \<in> set (compare_report [1, 2, 3, 4, 5] [1, 2, 9, 4, 5, 6, 7])
   \<and> Extra_data_in_file_2 1 \<notin> set (compare_report [1, 2] [1])
   \<and> Extra_hex [2] \<notin> set (compare_report [1, 2] [1])"
proof -
  have a: "length [1, 2, 3, 4, 5 :: byte] < length [1, 2, 9, 4, 5, 6, 7 :: byte]" by simp
  have b: "length [1 :: byte] \<le> length [1, 2 :: byte]" by simp
  have c: "take 50 (drop (length [1, 2, 3, 4, 5 :: byte]) [1, 2, 9, 4, 5, 6, 7 :: byte]) = [6, 7]"
    by simp
  from trailing_bytes_only_file2 [of "[1, 2, 3, 4, 5]" "[1, 2, 9, 4, 5, 6, 7]" 1 "[2]"] a
  have "Extra_data_in_file_2 (length [1, 2, 9, 4, 5, 6, 7 :: byte] - length [1, 2, 3, 4, 5 :: byte])
      \<in> set (compare_report [1, 2, 3, 4, 5] [1, 2, 9, 4, 5, 6, 7])
    \<and> Extra_hex (take 50 (drop (length [1, 2, 3, 4, 5 :: byte]) [1, 2, 9, 4, 5, 6, 7 :: byte]))
      \<in> set (compare_report [1, 2, 3, 4, 5] [1, 2, 9, 4, 5, 6, 7])"
    by blast
  moreover from trailing_bytes_only_file2 [of "[1, 2]" "[1]" 1 "[2]"] b
  have "Extra_data_in_file_2 1 \<notin> set (compare_report [1, 2] [1])
    \<and> Extra_hex [2] \<notin> set (compare_report [1, 2] [1])"
    by blast
  ultimately show ?thesis unfolding c by blast
qed


end
